theory Spec2Isabelle
  imports Main "HOL-Library.Multiset"
begin

section \<open>Characters, strings and exceptions\<close>

text \<open>
  A Python \<^verbatim>\<open>str\<close> is a sequence of Unicode code points, and \<^verbatim>\<open>len\<close> and indexing count
  code points. A character is modelled by its code point, a string by the list of its code
  points. \<open>str\<close> writes an ASCII literal as such a list.
\<close>

type_synonym codepoint = nat

abbreviation str :: "string \<Rightarrow> codepoint list" where
  "str s \<equiv> map of_char s"

text \<open>\<^verbatim>\<open>token.isascii()\<close> on a one-character string: the code point is in U+0000..U+007F.\<close>

definition isascii :: "codepoint \<Rightarrow> bool" where
  "isascii c = (c < 128)"

text \<open>
  The exceptions the program can raise: \<^verbatim>\<open>ValueError(message)\<close>, \<^verbatim>\<open>IndexError\<close>, and the
  \<^verbatim>\<open>RecursionError\<close> of the interpreter when a call finds no free frame on its stack.
\<close>

datatype error = ValueError "codepoint list" | IndexError | RecursionError

section \<open>States\<close>

text \<open>
  The classes derived from \<^verbatim>\<open>State\<close>, with the attributes that \<^verbatim>\<open>check_self\<close> reads:
  \<^verbatim>\<open>curr_sym\<close> of an \<^verbatim>\<open>AsciiState\<close>, \<^verbatim>\<open>checking_state\<close> of a \<^verbatim>\<open>StarState\<close> or a
  \<^verbatim>\<open>PlusState\<close>. These attributes are assigned in the constructors only, and
  \<^verbatim>\<open>checking_state\<close> is used through \<^verbatim>\<open>check_self\<close> only, so the wrapped state is kept
  by the value of its own class and attributes.
\<close>

datatype cls =
    StartState
  | TerminationState
  | DotState
  | AsciiState codepoint
  | StarState cls
  | PlusState cls

text \<open>
  \<^verbatim>\<open>check_self\<close> of a \<^verbatim>\<open>StarState\<close> or a \<^verbatim>\<open>PlusState\<close> calls \<^verbatim>\<open>check_self\<close> of the wrapped
  state, one interpreter frame for each wrapper. \<open>check_self\<close> is the value that the call
  returns when the stack has room for these frames; \<open>check_self_frames\<close> below is the call
  with the number of free frames counted.
\<close>

primrec check_self :: "cls \<Rightarrow> codepoint \<Rightarrow> bool" where
  "check_self StartState char = True"
| "check_self TerminationState char = False"
| "check_self DotState char = True"
| "check_self (AsciiState curr_sym) curr_char = (curr_char = curr_sym)"
| "check_self (StarState checking_state) char = check_self checking_state char"
| "check_self (PlusState checking_state) char = check_self checking_state char"

text \<open>\<^verbatim>\<open>isinstance(s, StarState)\<close>: \<^verbatim>\<open>PlusState\<close> derives from \<^verbatim>\<open>State\<close>, not from \<^verbatim>\<open>StarState\<close>.\<close>

fun is_StarState :: "cls \<Rightarrow> bool" where
  "is_StarState (StarState k) = True"
| "is_StarState k = False"

text \<open>
  State objects have identity (\<^verbatim>\<open>==\<close>, \<^verbatim>\<open>!=\<close> and \<^verbatim>\<open>in\<close> compare them by identity, no class
  defines \<^verbatim>\<open>__eq__\<close>) and a mutable list \<^verbatim>\<open>next_states\<close> of references. The objects live
  in a store, a list indexed by address; a reference is an address, and a new object takes
  the next free address. A reference that the program holds is the address of an object
  that exists; \<open>store_ok\<close> below states it for every store that the compiler builds.
\<close>

record state =
  cls :: cls
  next_states :: "nat list"

type_synonym store = "state list"

text \<open>
  A constructor call: every constructor sets \<^verbatim>\<open>next_states = []\<close>; the result is the address
  of the new object and the store that holds it.
\<close>

definition new_state :: "store \<Rightarrow> cls \<Rightarrow> nat \<times> store" where
  "new_state h k = (length h, h @ [\<lparr>cls = k, next_states = []\<rparr>])"

text \<open>\<^verbatim>\<open>a.next_states.append(b)\<close>\<close>

definition append_next :: "store \<Rightarrow> nat \<Rightarrow> nat \<Rightarrow> store" where
  "append_next h a b = h[a := (h ! a)\<lparr>next_states := next_states (h ! a) @ [b]\<rparr>]"

text \<open>\<^verbatim>\<open>a.next_states[-1] = b\<close>, which raises \<^verbatim>\<open>IndexError\<close> on an empty list.\<close>

definition set_last :: "store \<Rightarrow> nat \<Rightarrow> nat \<Rightarrow> error + store" where
  "set_last h a b =
     (if next_states (h ! a) = [] then Inl IndexError
      else Inr (h[a := (h ! a)\<lparr>next_states := butlast (next_states (h ! a)) @ [b]\<rparr>]))"

section \<open>The compiler: \<^verbatim>\<open>RegexFSM.__init__\<close>\<close>

record fsm =
  start_state :: nat
  terminal_state :: nat
  states :: "nat list"
  objects :: store

text \<open>\<^verbatim>\<open>__init_next_state\<close>: the state object for a token that is not a quantifier.\<close>

definition init_next_state :: "store \<Rightarrow> codepoint \<Rightarrow> error + nat \<times> store" where
  "init_next_state h token =
     (if token = of_char CHR ''.'' then Inr (new_state h DotState)
      else if isascii token then Inr (new_state h (AsciiState token))
      else Inl (ValueError (str ''Unsupported token: '' @ [token])))"

text \<open>
  One iteration of the \<^verbatim>\<open>while\<close> loop on the character \<open>char\<close>. The locals \<^verbatim>\<open>prev_state\<close>
  and \<^verbatim>\<open>tmp_next_state\<close> are arguments; the iteration returns the new \<^verbatim>\<open>tmp_next_state\<close>
  (\<^verbatim>\<open>prev_state\<close> is never assigned in the loop). \<^verbatim>\<open>if tmp_next_state:\<close> is true of every
  state object, since no class defines \<^verbatim>\<open>__bool__\<close> or \<^verbatim>\<open>__len__\<close>, and false of \<^verbatim>\<open>None\<close>.
\<close>

definition compile_step ::
  "codepoint \<Rightarrow> nat \<Rightarrow> nat option \<Rightarrow> fsm \<Rightarrow> error + nat option \<times> fsm" where
  "compile_step char prev_state tmp_next_state self =
     (if char = of_char CHR ''*'' then
        (case tmp_next_state of
           None \<Rightarrow> Inl (ValueError (str ''* cannot be the first character''))
         | Some tmp \<Rightarrow>
            (case new_state (objects self) (StarState (cls (objects self ! tmp))) of
               (star_state, h1) \<Rightarrow>
                 (case set_last h1 prev_state star_state of
                    Inl e \<Rightarrow> Inl e
                  | Inr h2 \<Rightarrow>
                      Inr (Some star_state,
                           self\<lparr>objects :=
                                  append_next (append_next h2 star_state tmp)
                                    star_state star_state,
                                states := states self @ [star_state]\<rparr>))))
      else if char = of_char CHR ''+'' then
        (case tmp_next_state of
           None \<Rightarrow> Inl (ValueError (str ''+ cannot be the first character''))
         | Some tmp \<Rightarrow>
            (case new_state (objects self) (PlusState (cls (objects self ! tmp))) of
               (plus_state, h1) \<Rightarrow>
                 (case set_last h1 prev_state plus_state of
                    Inl e \<Rightarrow> Inl e
                  | Inr h2 \<Rightarrow>
                      Inr (Some tmp,
                           self\<lparr>objects :=
                                  append_next (append_next h2 plus_state tmp) tmp tmp,
                                states := states self @ [plus_state]\<rparr>))))
      else
        (case init_next_state (objects self) char of
           Inl e \<Rightarrow> Inl e
         | Inr (new, h1) \<Rightarrow>
             Inr (Some new,
                  self\<lparr>objects :=
                         (case tmp_next_state of
                            Some tmp \<Rightarrow> append_next h1 tmp new
                          | None \<Rightarrow> append_next h1 prev_state new),
                       states := states self @ [new]\<rparr>)))"

text \<open>The \<^verbatim>\<open>while i < len(regex_expr)\<close> loop: every iteration ends with \<^verbatim>\<open>i += 1\<close> or raises.\<close>

fun compile_loop ::
  "codepoint list \<Rightarrow> nat \<Rightarrow> nat option \<Rightarrow> fsm \<Rightarrow> error + nat option \<times> fsm" where
  "compile_loop [] prev_state tmp_next_state self = Inr (tmp_next_state, self)"
| "compile_loop (char # rest) prev_state tmp_next_state self =
     (case compile_step char prev_state tmp_next_state self of
        Inl e \<Rightarrow> Inl e
      | Inr (tmp', self') \<Rightarrow> compile_loop rest prev_state tmp' self')"

text \<open>
  \<^verbatim>\<open>RegexFSM(regex_expr)\<close>: the start state is created first (address 0), the termination
  state second (address 1); after the loop the termination state is appended to the
  successors of \<^verbatim>\<open>tmp_next_state\<close>, or of the start state when there is none.
\<close>

definition RegexFSM :: "codepoint list \<Rightarrow> error + fsm" where
  "RegexFSM regex_expr =
     (case new_state [] StartState of
        (start, h0) \<Rightarrow>
          (case new_state h0 TerminationState of
             (terminal, h1) \<Rightarrow>
               (case compile_loop regex_expr start None
                       \<lparr>start_state = start, terminal_state = terminal,
                        states = [start], objects = h1\<rparr> of
                  Inl e \<Rightarrow> Inl e
                | Inr (tmp_next_state, self) \<Rightarrow>
                    Inr (self\<lparr>objects :=
                                (case tmp_next_state of
                                   Some tmp \<Rightarrow>
                                     append_next (objects self) tmp (terminal_state self)
                                 | None \<Rightarrow>
                                     append_next (objects self) (start_state self)
                                       (terminal_state self))\<rparr>))))"

section \<open>The matcher: \<^verbatim>\<open>RegexFSM.check_string\<close>\<close>

text \<open>
  The pairs that the \<^verbatim>\<open>for next_state in state.next_states\<close> loop appends to
  \<^verbatim>\<open>current_positions\<close> for one successor, in the order of appending.
\<close>

definition successor_positions :: "store \<Rightarrow> codepoint \<Rightarrow> nat \<Rightarrow> nat \<Rightarrow> (nat \<times> nat) list" where
  "successor_positions h char pos next_state =
     (if check_self (cls (h ! next_state)) char then [(next_state, pos + 1)] else []) @
     (if is_StarState (cls (h ! next_state))
      then map (\<lambda>s. (s, pos)) (filter (\<lambda>s. s \<noteq> next_state) (next_states (h ! next_state)))
      else [])"

text \<open>The test made when the whole input has been read (\<^verbatim>\<open>pos == string_len\<close>).\<close>

definition accepts_at_end :: "fsm \<Rightarrow> nat \<Rightarrow> bool" where
  "accepts_at_end self state =
     (terminal_state self \<in> set (next_states (objects self ! state)) \<or>
      list_ex (\<lambda>next_state. is_StarState (cls (objects self ! next_state)) \<and>
                 terminal_state self \<in> set (next_states (objects self ! next_state)))
        (next_states (objects self ! state)))"

text \<open>
  The \<^verbatim>\<open>while current_positions\<close> loop. Nothing in the code bounds the number of its
  iterations, so it is a partial function: \<open>None\<close> is a loop that never ends.
  \<^verbatim>\<open>input_string[pos]\<close> raises \<^verbatim>\<open>IndexError\<close> when \<open>pos\<close> is past the end. Every
  \<^verbatim>\<open>check_self\<close> call of this loop finds room on the stack; \<open>check_loop_frames\<close> below is
  the loop with the free frames counted.
\<close>

partial_function (option) check_loop ::
  "fsm \<Rightarrow> codepoint list \<Rightarrow> (nat \<times> nat) list \<Rightarrow> (error + bool) option" where
  "check_loop self input_string current_positions =
     (case current_positions of
        [] \<Rightarrow> Some (Inr False)
      | (state, pos) # rest \<Rightarrow>
          if pos = length input_string then
            (if accepts_at_end self state then Some (Inr True)
             else check_loop self input_string rest)
          else if length input_string < pos then Some (Inl IndexError)
          else check_loop self input_string
                 (rest @ concat (map (successor_positions (objects self) (input_string ! pos) pos)
                                   (next_states (objects self ! state)))))"

declare check_loop.simps [code]

definition check_string :: "fsm \<Rightarrow> codepoint list \<Rightarrow> (error + bool) option" where
  "check_string self input_string = check_loop self input_string [(start_state self, 0)]"

text \<open>\<^verbatim>\<open>RegexFSM(regex_expr).check_string(input_string)\<close>, as the demonstration under
  \<^verbatim>\<open>__main__\<close> calls it; an exception of the constructor is the result.\<close>

definition matches :: "codepoint list \<Rightarrow> codepoint list \<Rightarrow> (error + bool) option" where
  "matches regex_expr input_string =
     (case RegexFSM regex_expr of
        Inl e \<Rightarrow> Some (Inl e)
      | Inr self \<Rightarrow> check_string self input_string)"

section \<open>The matcher under the recursion limit of the interpreter\<close>







section \<open>Notions used in the proofs\<close>

text \<open>The number of \<^verbatim>\<open>StarState\<close> and \<^verbatim>\<open>PlusState\<close> wrappers around a state.\<close>

primrec depth :: "cls \<Rightarrow> nat" where
  "depth StartState = 0"
| "depth TerminationState = 0"
| "depth DotState = 0"
| "depth (AsciiState c) = 0"
| "depth (StarState k) = Suc (depth k)"
| "depth (PlusState k) = Suc (depth k)"

text \<open>
  What every edge \<open>a \<rightarrow> b\<close> of a store built by the compiler satisfies: \<open>b\<close> exists and is
  not the start state; a \<^verbatim>\<open>StarState\<close> successor of a state other than the start state is
  that state itself or is wrapped less deeply; the successors of a \<^verbatim>\<open>StarState\<close> other than
  itself are wrapped less deeply than it.
\<close>

definition edge_ok :: "store \<Rightarrow> nat \<Rightarrow> nat \<Rightarrow> bool" where
  "edge_ok h a b \<longleftrightarrow>
     b < length h \<and> b \<noteq> 0 \<and>
     (a = 0 \<or> \<not> is_StarState (cls (h ! b)) \<or> b = a \<or> depth (cls (h ! b)) < depth (cls (h ! a))) \<and>
     (\<not> is_StarState (cls (h ! a)) \<or> b = a \<or> depth (cls (h ! b)) < depth (cls (h ! a)))"

definition store_ok :: "store \<Rightarrow> bool" where
  "store_ok h \<longleftrightarrow>
     2 \<le> length h \<and> cls (h ! 0) = StartState \<and> cls (h ! 1) = TerminationState \<and>
     (\<forall>a < length h. \<forall>b \<in> set (next_states (h ! a)). edge_ok h a b)"

text \<open>The loop invariant of the compiler, for \<^verbatim>\<open>prev_state\<close> the start state.\<close>

definition builder_ok :: "nat option \<Rightarrow> fsm \<Rightarrow> bool" where
  "builder_ok tmp self \<longleftrightarrow>
     start_state self = 0 \<and> terminal_state self = 1 \<and> store_ok (objects self) \<and>
     (case tmp of None \<Rightarrow> True
      | Some t \<Rightarrow> next_states (objects self ! 0) \<noteq> [] \<and> 0 < t \<and> t < length (objects self))"

text \<open>The automaton before the loop: the start state and the termination state.\<close>

definition fsm0 :: fsm where
  "fsm0 = \<lparr>start_state = 0, terminal_state = 1, states = [0],
           objects = [\<lparr>cls = StartState, next_states = []\<rparr>, \<lparr>cls = TerminationState, next_states = []\<rparr>]\<rparr>"


text \<open>
  \<open>reachable h a b\<close>: in the store \<open>h\<close> a path of at least one \<^verbatim>\<open>next_states\<close> edge leads from
  the state \<open>a\<close> to the state \<open>b\<close>.
\<close>

inductive reachable :: "store \<Rightarrow> nat \<Rightarrow> nat \<Rightarrow> bool" for h :: store and a :: nat where
  edge: "b \<in> set (next_states (h ! a)) \<Longrightarrow> reachable h a b"
| step: "reachable h a b \<Longrightarrow> c \<in> set (next_states (h ! b)) \<Longrightarrow> reachable h a c"

text \<open>The class of the state that \<^verbatim>\<open>__init_next_state\<close> creates for a supported token.\<close>

definition atom_cls :: "codepoint \<Rightarrow> cls" where
  "atom_cls c = (if c = 46 then DotState else AsciiState c)"

text \<open>
  The store during the compilation of a pattern without quantifiers, after the tokens \<open>pre\<close>:
  the state of token \<open>i\<close> has address \<open>i + 2\<close> and one edge, to the state of the next token.
\<close>

definition linear :: "codepoint list \<Rightarrow> store \<Rightarrow> bool" where
  "linear pre h \<longleftrightarrow>
     length h = length pre + 2 \<and> cls (h ! 1) = TerminationState \<and> next_states (h ! 1) = [] \<and>
     next_states (h ! 0) = (if pre = [] then [] else [2]) \<and>
     (\<forall>i < length pre. cls (h ! (i + 2)) = atom_cls (pre ! i) \<and>
        next_states (h ! (i + 2)) = (if i + 1 < length pre then [i + 3] else []))"

text \<open>The same store once the termination state has been appended after the loop.\<close>

definition chain :: "codepoint list \<Rightarrow> store \<Rightarrow> bool" where
  "chain p h \<longleftrightarrow>
     length h = length p + 2 \<and> cls (h ! 1) = TerminationState \<and>
     next_states (h ! 0) = [if p = [] then 1 else 2] \<and>
     (\<forall>i < length p. cls (h ! (i + 2)) = atom_cls (p ! i) \<and>
        next_states (h ! (i + 2)) = [if i + 1 < length p then i + 3 else 1])"

text \<open>The state of a chain that has read \<open>i\<close> characters.\<close>

definition node :: "nat \<Rightarrow> nat" where
  "node i = (if i = 0 then 0 else i + 1)"


section \<open>The store built by the compiler\<close>

lemma is_Star_depth: "is_StarState k \<Longrightarrow> 0 < depth k"
  by (cases k) simp_all

lemma length_append_next [simp]: "length (append_next h a b) = length h"
  by (simp add: append_next_def)

lemma cls_append_next [simp]: "cls (append_next h a b ! i) = cls (h ! i)"
  by (cases "a < length h") (simp_all add: append_next_def nth_list_update list_update_beyond)

lemma next_append_next:
  "next_states (append_next h a b ! i) =
     (if i = a \<and> a < length h then next_states (h ! a) @ [b] else next_states (h ! i))"
  by (cases "a < length h") (simp_all add: append_next_def nth_list_update list_update_beyond)

lemma edge_ok_append_next [simp]: "edge_ok (append_next h x y) a b = edge_ok h a b"
  by (simp add: edge_ok_def)

lemma store_ok_append_next:
  "store_ok h \<Longrightarrow> edge_ok h a b \<Longrightarrow> store_ok (append_next h a b)"
  by (auto simp add: store_ok_def next_append_next split: if_splits)

lemma set_last_Inr:
  "set_last h a b = Inr h' \<Longrightarrow>
     length h' = length h \<and> (\<forall>i. cls (h' ! i) = cls (h ! i)) \<and>
     (\<forall>i. next_states (h' ! i) =
        (if i = a \<and> a < length h then butlast (next_states (h ! a)) @ [b] else next_states (h ! i)))"
  by (cases "a < length h") (auto simp add: set_last_def nth_list_update list_update_beyond split: if_splits)

lemma store_ok_set_last:
  assumes "store_ok h" "set_last h 0 b = Inr h'" "b < length h" "b \<noteq> 0"
  shows "store_ok h'"
proof -
  from set_last_Inr [OF assms(2)]
  have len: "length h' = length h" and c: "\<And>i. cls (h' ! i) = cls (h ! i)"
    and n: "\<And>i. next_states (h' ! i) =
        (if i = 0 \<and> 0 < length h then butlast (next_states (h ! 0)) @ [b] else next_states (h ! i))"
    by auto
  have e: "\<And>x y. edge_ok h' x y = edge_ok h x y" by (simp add: edge_ok_def len c)
  show ?thesis
    using assms(1,3,4) unfolding store_ok_def len
    apply (simp add: c n e)
    apply (auto dest: in_set_butlastD simp add: edge_ok_def)
    done
qed

lemma store_ok_new_state:
  "store_ok h \<Longrightarrow> store_ok (snd (new_state h k))"
  apply (simp add: store_ok_def new_state_def nth_append)
  apply (auto simp add: edge_ok_def nth_append less_Suc_eq)
  done

lemma compile_step_star_None:
  "compile_step 42 p None self = Inl (ValueError (str ''* cannot be the first character''))"
  by (simp add: compile_step_def)

lemma compile_step_plus_None:
  "compile_step 43 p None self = Inl (ValueError (str ''+ cannot be the first character''))"
  by (simp add: compile_step_def)

lemma compile_step_unsupported:
  "\<not> isascii c \<Longrightarrow> compile_step c p tmp self = Inl (ValueError (str ''Unsupported token: '' @ [c]))"
  by (auto simp add: compile_step_def init_next_state_def isascii_def)

lemma quantifier_step_store:
  assumes ok: "store_ok h" and t: "0 < t" "t < length h" and ne: "next_states (h ! 0) \<noteq> []"
    and k: "k = StarState (cls (h ! t)) \<or> k = PlusState (cls (h ! t))"
  shows "\<exists>h2. set_last (h @ [\<lparr>cls = k, next_states = []\<rparr>]) 0 (length h) = Inr h2 \<and>
           store_ok h2 \<and> length h2 = Suc (length h) \<and> next_states (h2 ! 0) \<noteq> [] \<and>
           cls (h2 ! length h) = k \<and> cls (h2 ! t) = cls (h ! t) \<and>
           next_states (h2 ! length h) = []"
proof -
  let ?h1 = "h @ [\<lparr>cls = k, next_states = []\<rparr>]"
  from ok have len: "2 \<le> length h" "h \<noteq> []" by (auto simp add: store_ok_def)
  have ok1: "store_ok ?h1" using store_ok_new_state [OF ok, of k] by (simp add: new_state_def)
  have ne1: "next_states (?h1 ! 0) \<noteq> []" using ne len by (simp add: nth_append)
  then obtain h2 where h2: "set_last ?h1 0 (length h) = Inr h2"
    by (simp add: set_last_def)
  have ok2: "store_ok h2" using store_ok_set_last [OF ok1 h2] len by simp
  from set_last_Inr [OF h2] have
    l2: "length h2 = Suc (length h)" and c2: "\<And>i. cls (h2 ! i) = cls (?h1 ! i)"
    and n2: "\<And>i. next_states (h2 ! i) =
        (if i = 0 \<and> 0 < length ?h1 then butlast (next_states (?h1 ! 0)) @ [length h]
         else next_states (?h1 ! i))"
    by auto
  show ?thesis using h2 ok2 l2 c2 n2 t len by (simp add: nth_append)
qed

lemma compile_step_ok:
  assumes b: "builder_ok tmp self" and c: "isascii c" and q: "tmp \<noteq> None \<or> (c \<noteq> 42 \<and> c \<noteq> 43)"
  shows "\<exists>t' self'. compile_step c 0 tmp self = Inr (Some t', self') \<and> builder_ok (Some t') self'"
proof -
  let ?h = "objects self"
  from b have ok: "store_ok ?h" and st: "start_state self = 0" "terminal_state self = 1"
    by (simp_all add: builder_ok_def)
  from ok have len: "2 \<le> length ?h" "?h \<noteq> []" by (auto simp add: store_ok_def)
  consider (star) "c = 42" | (plus) "c = 43" | (atom) "c \<noteq> 42" "c \<noteq> 43" by blast
  then show ?thesis
  proof cases
    case star
    with q obtain t where tmp: "tmp = Some t" by auto
    with b have t: "0 < t" "t < length ?h" and ne: "next_states (?h ! 0) \<noteq> []"
      by (simp_all add: builder_ok_def)
    from quantifier_step_store [OF ok t ne, of "StarState (cls (?h ! t))"]
    obtain h2 where h2: "set_last (?h @ [\<lparr>cls = StarState (cls (?h ! t)), next_states = []\<rparr>]) 0 (length ?h) = Inr h2"
      and ok2: "store_ok h2" and l2: "length h2 = Suc (length ?h)" and ne2: "next_states (h2 ! 0) \<noteq> []"
      and c2: "cls (h2 ! length ?h) = StarState (cls (?h ! t))" "cls (h2 ! t) = cls (?h ! t)"
      by auto
    let ?h3 = "append_next h2 (length ?h) t"
    have e1: "edge_ok h2 (length ?h) t" using t l2 c2 by (simp add: edge_ok_def)
    have ok3: "store_ok ?h3" by (rule store_ok_append_next [OF ok2 e1])
    have e2: "edge_ok ?h3 (length ?h) (length ?h)" using l2 len by (simp add: edge_ok_def)
    have ok4: "store_ok (append_next ?h3 (length ?h) (length ?h))"
      by (rule store_ok_append_next [OF ok3 e2])
    show ?thesis
      using star tmp h2 ok4 st ne2 len l2
      by (simp add: compile_step_def new_state_def builder_ok_def next_append_next)
  next
    case plus
    with q obtain t where tmp: "tmp = Some t" by auto
    with b have t: "0 < t" "t < length ?h" and ne: "next_states (?h ! 0) \<noteq> []"
      by (simp_all add: builder_ok_def)
    from quantifier_step_store [OF ok t ne, of "PlusState (cls (?h ! t))"]
    obtain h2 where h2: "set_last (?h @ [\<lparr>cls = PlusState (cls (?h ! t)), next_states = []\<rparr>]) 0 (length ?h) = Inr h2"
      and ok2: "store_ok h2" and l2: "length h2 = Suc (length ?h)" and ne2: "next_states (h2 ! 0) \<noteq> []"
      and c2: "cls (h2 ! length ?h) = PlusState (cls (?h ! t))" "cls (h2 ! t) = cls (?h ! t)"
      by auto
    let ?h3 = "append_next h2 (length ?h) t"
    have e1: "edge_ok h2 (length ?h) t" using t l2 c2 by (simp add: edge_ok_def)
    have ok3: "store_ok ?h3" by (rule store_ok_append_next [OF ok2 e1])
    have e2: "edge_ok ?h3 t t" using l2 t by (simp add: edge_ok_def)
    have ok4: "store_ok (append_next ?h3 t t)"
      by (rule store_ok_append_next [OF ok3 e2])
    show ?thesis
      using plus tmp h2 ok4 st ne2 len l2 t
      by (simp add: compile_step_def new_state_def builder_ok_def next_append_next)
  next
    case atom
    define k where "k = (if c = 46 then DotState else AsciiState c)"
    let ?h1 = "?h @ [\<lparr>cls = k, next_states = []\<rparr>]"
    have init: "init_next_state ?h c = Inr (length ?h, ?h1)"
      using c by (simp add: init_next_state_def new_state_def k_def)
    have ok1: "store_ok ?h1" using store_ok_new_state [OF ok, of k] by (simp add: new_state_def)
    have nk: "\<not> is_StarState k" "depth k = 0" by (simp_all add: k_def)
    show ?thesis
    proof (cases tmp)
      case None
      have e: "edge_ok ?h1 0 (length ?h)" using len nk
        by (auto simp add: edge_ok_def nth_append dest: is_Star_depth)
      have ok2: "store_ok (append_next ?h1 0 (length ?h))" by (rule store_ok_append_next [OF ok1 e])
      show ?thesis using atom None init ok2 st len
        by (simp add: compile_step_def builder_ok_def next_append_next)
    next
      case (Some t)
      with b have t: "0 < t" "t < length ?h" and ne: "next_states (?h ! 0) \<noteq> []"
        by (simp_all add: builder_ok_def)
      have e: "edge_ok ?h1 t (length ?h)" using len nk t
        by (auto simp add: edge_ok_def nth_append dest: is_Star_depth)
      have ok2: "store_ok (append_next ?h1 t (length ?h))" by (rule store_ok_append_next [OF ok1 e])
      show ?thesis using atom Some init ok2 st len t ne
        by (simp add: compile_step_def builder_ok_def next_append_next nth_append)
    qed
  qed
qed

lemma compile_loop_ok:
  "builder_ok (Some t) self \<Longrightarrow> \<forall>c \<in> set cs. isascii c \<Longrightarrow>
     \<exists>t' self'. compile_loop cs 0 (Some t) self = Inr (Some t', self') \<and> builder_ok (Some t') self'"
proof (induction cs arbitrary: t self)
  case Nil
  then show ?case by simp
next
  case (Cons c cs)
  from compile_step_ok [OF Cons.prems(1), of c] Cons.prems(2)
  obtain t1 self1 where s: "compile_step c 0 (Some t) self = Inr (Some t1, self1)"
    and b: "builder_ok (Some t1) self1" by auto
  from Cons.IH [OF b] Cons.prems(2) s show ?case by simp
qed

lemma compile_loop_unsupported:
  "builder_ok (Some t) self \<Longrightarrow> find (\<lambda>c. \<not> isascii c) cs = Some x \<Longrightarrow>
     compile_loop cs 0 (Some t) self = Inl (ValueError (str ''Unsupported token: '' @ [x]))"
proof (induction cs arbitrary: t self)
  case Nil
  then show ?case by simp
next
  case (Cons c cs)
  show ?case
  proof (cases "isascii c")
    case False
    with Cons.prems(2) have "x = c" by simp
    with False show ?thesis by (simp add: compile_step_unsupported)
  next
    case True
    from compile_step_ok [OF Cons.prems(1) True]
    obtain t1 self1 where s: "compile_step c 0 (Some t) self = Inr (Some t1, self1)"
      and b: "builder_ok (Some t1) self1" by auto
    from Cons.prems(2) True have "find (\<lambda>c. \<not> isascii c) cs = Some x" by simp
    from Cons.IH [OF b this] s show ?thesis by simp
  qed
qed

lemma RegexFSM_loop:
  "RegexFSM p =
     (case compile_loop p 0 None fsm0 of
        Inl e \<Rightarrow> Inl e
      | Inr (tmp, self) \<Rightarrow>
          Inr (self\<lparr>objects :=
                 (case tmp of
                    Some t \<Rightarrow> append_next (objects self) t (terminal_state self)
                  | None \<Rightarrow> append_next (objects self) (start_state self) (terminal_state self))\<rparr>))"
  by (simp add: RegexFSM_def new_state_def fsm0_def)

lemma builder_ok_fsm0: "builder_ok None fsm0"
  by (simp add: builder_ok_def fsm0_def store_ok_def less_Suc_eq numeral_2_eq_2)

lemma builder_ok_final:
  assumes "builder_ok (Some t) self"
  shows "store_ok (append_next (objects self) t (terminal_state self))"
proof -
  from assms have ok: "store_ok (objects self)" and t: "0 < t" "t < length (objects self)"
    and tm: "terminal_state self = 1" by (simp_all add: builder_ok_def)
  from ok have "edge_ok (objects self) t 1"
    by (auto simp add: edge_ok_def store_ok_def dest: is_Star_depth)
  with ok tm show ?thesis by (simp add: store_ok_append_next)
qed

lemma RegexFSM_Nil:
  "RegexFSM [] = Inr \<lparr>start_state = 0, terminal_state = 1, states = [0],
      objects = [\<lparr>cls = StartState, next_states = [1]\<rparr>, \<lparr>cls = TerminationState, next_states = []\<rparr>]\<rparr>"
  by (simp add: RegexFSM_def new_state_def append_next_def)

lemma RegexFSM_star_first:
  "RegexFSM (42 # rest) = Inl (ValueError (str ''* cannot be the first character''))"
  by (simp add: RegexFSM_loop compile_step_star_None)

lemma RegexFSM_plus_first:
  "RegexFSM (43 # rest) = Inl (ValueError (str ''+ cannot be the first character''))"
  by (simp add: RegexFSM_loop compile_step_plus_None)

lemma RegexFSM_ascii:
  assumes "c \<noteq> 42" "c \<noteq> 43" "\<forall>x \<in> set (c # rest). isascii x"
  shows "\<exists>M. RegexFSM (c # rest) = Inr M \<and> store_ok (objects M) \<and>
           start_state M = 0 \<and> terminal_state M = 1"
proof -
  from compile_step_ok [OF builder_ok_fsm0, of c] assms
  obtain t1 self1 where s: "compile_step c 0 None fsm0 = Inr (Some t1, self1)"
    and b: "builder_ok (Some t1) self1" by auto
  from compile_loop_ok [OF b, of rest] assms(3)
  obtain t2 self2 where l: "compile_loop rest 0 (Some t1) self1 = Inr (Some t2, self2)"
    and b2: "builder_ok (Some t2) self2" by auto
  from builder_ok_final [OF b2] b2 s l show ?thesis
    by (simp add: RegexFSM_loop builder_ok_def)
qed

lemma RegexFSM_unsupported:
  assumes "c \<noteq> 42" "c \<noteq> 43" "find (\<lambda>c. \<not> isascii c) (c # rest) = Some x"
  shows "RegexFSM (c # rest) = Inl (ValueError (str ''Unsupported token: '' @ [x]))"
proof (cases "isascii c")
  case False
  with assms(3) have "x = c" by simp
  with False show ?thesis by (simp add: RegexFSM_loop compile_step_unsupported)
next
  case True
  from compile_step_ok [OF builder_ok_fsm0 True] assms
  obtain t1 self1 where s: "compile_step c 0 None fsm0 = Inr (Some t1, self1)"
    and b: "builder_ok (Some t1) self1" by auto
  from assms(3) True have "find (\<lambda>c. \<not> isascii c) rest = Some x" by simp
  from compile_loop_unsupported [OF b this] s show ?thesis
    by (simp add: RegexFSM_loop)
qed

lemma RegexFSM_store_ok:
  assumes "RegexFSM p = Inr M"
  shows "store_ok (objects M) \<and> start_state M = 0 \<and> terminal_state M = 1"
proof (cases p)
  case Nil
  with assms show ?thesis
    by (auto simp add: RegexFSM_Nil store_ok_def edge_ok_def less_Suc_eq numeral_2_eq_2)
next
  case (Cons c rest)
  show ?thesis
  proof (cases "find (\<lambda>c. \<not> isascii c) p")
    case None
    then have "\<forall>x \<in> set p. isascii x" by (simp add: find_None_iff)
    then have a: "\<forall>x \<in> set (c # rest). isascii x" by (simp add: Cons)
    from assms Cons have "c \<noteq> 42" "c \<noteq> 43"
      by (auto simp add: RegexFSM_star_first RegexFSM_plus_first)
    from RegexFSM_ascii [OF this a] assms Cons show ?thesis by auto
  next
    case (Some x)
    from assms Cons have "c \<noteq> 42" "c \<noteq> 43"
      by (auto simp add: RegexFSM_star_first RegexFSM_plus_first)
    from RegexFSM_unsupported [OF this] Some Cons assms show ?thesis by auto
  qed
qed




lemma compile_step_cls:
  assumes "compile_step c p tmp self = Inr (tmp', self')"
  shows "length (objects self') = Suc (length (objects self)) \<and>
         (\<forall>i < length (objects self). cls (objects self' ! i) = cls (objects self ! i))"
  using assms
  by (auto simp add: compile_step_def init_next_state_def new_state_def nth_append
      dest!: set_last_Inr split: if_splits option.splits sum.splits)

lemma compile_loop_cls:
  "compile_loop cs p tmp self = Inr (tmp', self') \<Longrightarrow>
     length (objects self') = length (objects self) + length cs \<and>
     (\<forall>i < length (objects self). cls (objects self' ! i) = cls (objects self ! i))"
proof (induction cs arbitrary: tmp self)
  case Nil
  then show ?case by simp
next
  case (Cons c cs)
  from Cons.prems obtain t1 s1 where s: "compile_step c p tmp self = Inr (t1, s1)"
    and l: "compile_loop cs p t1 s1 = Inr (tmp', self')"
    by (auto split: sum.splits)
  from compile_step_cls [OF s] Cons.IH [OF l] show ?case by auto
qed

lemma compile_loop_append:
  "compile_loop (xs @ ys) p tmp self =
     (case compile_loop xs p tmp self of
        Inl e \<Rightarrow> Inl e
      | Inr (t, s) \<Rightarrow> compile_loop ys p t s)"
  by (induction xs arbitrary: tmp self) (auto split: sum.splits)

lemma compile_step_builder_ok:
  assumes "builder_ok tmp self" "compile_step c 0 tmp self = Inr (tmp', self')"
  shows "builder_ok tmp' self' \<and> tmp' \<noteq> None"
proof -
  have a: "isascii c" using assms(2) by (rule contrapos_pp) (simp add: compile_step_unsupported)
  have q: "tmp \<noteq> None \<or> (c \<noteq> 42 \<and> c \<noteq> 43)"
    using assms(2) by (auto simp add: compile_step_star_None compile_step_plus_None)
  from compile_step_ok [OF assms(1) a q] assms(2) show ?thesis by auto
qed

lemma compile_loop_builder_ok:
  "builder_ok tmp self \<Longrightarrow> compile_loop cs 0 tmp self = Inr (tmp', self') \<Longrightarrow>
     builder_ok tmp' self'"
proof (induction cs arbitrary: tmp self)
  case Nil
  then show ?case by simp
next
  case (Cons c cs)
  from Cons.prems(2) obtain t1 s1 where s: "compile_step c 0 tmp self = Inr (t1, s1)"
    and l: "compile_loop cs 0 t1 s1 = Inr (tmp', self')"
    by (auto split: sum.splits)
  from compile_step_builder_ok [OF Cons.prems(1) s] Cons.IH [OF _ l] show ?case by simp
qed

lemma quantifier_step_cls:
  assumes "compile_step q p (Some t) self = Inr (tmp', self')" "q = 42 \<or> q = 43"
    "t < length (objects self)"
  shows "tmp' = Some (if q = 42 then length (objects self) else t) \<and>
         cls (objects self' ! length (objects self)) =
           (if q = 42 then StarState (cls (objects self ! t)) else PlusState (cls (objects self ! t)))"
  using assms
  by (auto simp add: compile_step_def new_state_def nth_append
      dest!: set_last_Inr split: if_splits sum.splits)

lemma check_loop_no_ValueError:
  assumes "check_loop M s q = Some r"
  shows "r \<noteq> Inl (ValueError msg)"
  by (rule check_loop.raw_induct
      [where P = "\<lambda>M s q r. r \<noteq> Inl (ValueError msg)", OF _ assms])
    (auto split: list.splits prod.splits if_splits)


lemma two_quantifiers_cls:
  assumes r: "RegexFSM (xs @ [q1, q2] @ ys) = Inr M"
    and q1: "q1 = 42 \<or> q1 = 43" and q2: "q2 = 42 \<or> q2 = 43"
  shows "\<exists>k. cls (objects M ! (length xs + 2)) = (if q1 = 42 then StarState k else PlusState k) \<and>
             cls (objects M ! (length xs + 3)) =
               (if q2 = 42 then StarState else PlusState) (if q1 = 42 then StarState k else k)"
proof -
  from r obtain tf sf where lf: "compile_loop (xs @ [q1, q2] @ ys) 0 None fsm0 = Inr (tf, sf)"
    and M: "\<And>i. cls (objects M ! i) = cls (objects sf ! i)"
    by (auto simp add: RegexFSM_loop split: sum.splits option.splits)
  from lf obtain t1 s1 where l1: "compile_loop xs 0 None fsm0 = Inr (t1, s1)"
    and l1': "compile_loop ([q1, q2] @ ys) 0 t1 s1 = Inr (tf, sf)"
    by (auto simp add: compile_loop_append split: sum.splits)
  from l1' obtain t2 s2 t3 s3 where st1: "compile_step q1 0 t1 s1 = Inr (t2, s2)"
    and st2: "compile_step q2 0 t2 s2 = Inr (t3, s3)"
    and l3: "compile_loop ys 0 t3 s3 = Inr (tf, sf)"
    by (auto split: sum.splits)
  have b1: "builder_ok t1 s1" by (rule compile_loop_builder_ok [OF builder_ok_fsm0 l1])
  have n: "length (objects s1) = length xs + 2"
    using compile_loop_cls [OF l1] by (simp add: fsm0_def)
  from st1 q1 obtain t where t1: "t1 = Some t"
    by (cases t1) (auto simp add: compile_step_star_None compile_step_plus_None)
  with b1 have t: "t < length (objects s1)" by (simp add: builder_ok_def)
  define k where "k = cls (objects s1 ! t)"
  from quantifier_step_cls [OF st1 [unfolded t1] q1 t]
  have t2: "t2 = Some (if q1 = 42 then length (objects s1) else t)"
    and c2: "cls (objects s2 ! length (objects s1)) = (if q1 = 42 then StarState k else PlusState k)"
    by (simp_all add: k_def)
  from compile_step_cls [OF st1] have n2: "length (objects s2) = Suc (length (objects s1))"
    and p2: "\<And>i. i < length (objects s1) \<Longrightarrow> cls (objects s2 ! i) = cls (objects s1 ! i)"
    by auto
  let ?t2 = "if q1 = 42 then length (objects s1) else t"
  have t2l: "?t2 < length (objects s2)" using t n2 by simp
  from quantifier_step_cls [OF st2 [unfolded t2] q2 t2l]
  have c3: "cls (objects s3 ! length (objects s2)) =
      (if q2 = 42 then StarState (cls (objects s2 ! ?t2)) else PlusState (cls (objects s2 ! ?t2)))"
    by simp
  have w: "cls (objects s2 ! ?t2) = (if q1 = 42 then StarState k else k)"
    using c2 p2 [OF t] by (simp add: k_def)
  from compile_step_cls [OF st2] have n3: "length (objects s3) = Suc (length (objects s2))"
    and p3: "\<And>i. i < length (objects s2) \<Longrightarrow> cls (objects s3 ! i) = cls (objects s2 ! i)"
    by auto
  from compile_loop_cls [OF l3]
  have pf: "\<And>i. i < length (objects s3) \<Longrightarrow> cls (objects sf ! i) = cls (objects s3 ! i)"
    by auto
  have "cls (objects M ! (length xs + 2)) = (if q1 = 42 then StarState k else PlusState k)"
    using M pf [of "length xs + 2"] p3 [of "length xs + 2"] c2 n n2 n3 by simp
  moreover have "cls (objects M ! (length xs + 3)) =
      (if q2 = 42 then StarState else PlusState) (if q1 = 42 then StarState k else k)"
    using M pf [of "length xs + 3"] c3 w n n2 n3 by (simp add: numeral_3_eq_3)
  ultimately show ?thesis by blast
qed

lemma ab_star_c_reachable:
  "reachable
     [\<lparr>cls = StartState, next_states = [4]\<rparr>,
      \<lparr>cls = TerminationState, next_states = []\<rparr>,
      \<lparr>cls = AsciiState 97, next_states = [3]\<rparr>,
      \<lparr>cls = AsciiState 98, next_states = []\<rparr>,
      \<lparr>cls = StarState (AsciiState 98), next_states = [3, 4, 5]\<rparr>,
      \<lparr>cls = AsciiState 99, next_states = [1]\<rparr>] 0 b \<Longrightarrow> b \<in> {1, 3, 4, 5}"
  by (induction rule: reachable.induct) auto

section \<open>Patterns without quantifiers\<close>

lemma linear_fsm0: "linear [] (objects fsm0)"
  by (simp add: linear_def fsm0_def)

lemma linear_step:
  assumes l: "linear pre (objects self)" and c: "c \<noteq> 42" "c \<noteq> 43" "isascii c"
    and t: "tmp = (if pre = [] then None else Some (length pre + 1))"
  shows "\<exists>self'. compile_step c 0 tmp self = Inr (Some (length pre + 2), self') \<and>
           linear (pre @ [c]) (objects self')"
proof -
  let ?h = "objects self"
  let ?h1 = "?h @ [\<lparr>cls = atom_cls c, next_states = []\<rparr>]"
  from l have len: "length ?h = length pre + 2" by (simp add: linear_def)
  have init: "init_next_state ?h c = Inr (length ?h, ?h1)"
    using c by (simp add: init_next_state_def new_state_def atom_cls_def)
  show ?thesis
  proof (cases "pre = []")
    case True
    with l t init c len show ?thesis
      by (simp add: compile_step_def linear_def next_append_next nth_append)
  next
    case False
    have "linear (pre @ [c]) (append_next ?h1 (length pre + 1) (length ?h))"
      unfolding linear_def
    proof (intro conjI allI impI)
      fix i assume i: "i < length (pre @ [c])"
      show "cls (append_next ?h1 (length pre + 1) (length ?h) ! (i + 2)) = atom_cls ((pre @ [c]) ! i)"
        using l i len by (auto simp add: linear_def nth_append less_Suc_eq)
      show "next_states (append_next ?h1 (length pre + 1) (length ?h) ! (i + 2)) =
          (if i + 1 < length (pre @ [c]) then [i + 3] else [])"
        using l i len False
        by (auto simp add: linear_def nth_append less_Suc_eq next_append_next numeral_3_eq_3)
    qed (use l len False in \<open>auto simp add: linear_def nth_append next_append_next\<close>)
    with False t init c len show ?thesis
      by (simp add: compile_step_def)
  qed
qed

lemma linear_loop:
  "linear pre (objects self) \<Longrightarrow> \<forall>c \<in> set cs. c \<noteq> 42 \<and> c \<noteq> 43 \<and> isascii c \<Longrightarrow>
   tmp = (if pre = [] then None else Some (length pre + 1)) \<Longrightarrow>
   \<exists>self'. compile_loop cs 0 tmp self =
       Inr (if pre @ cs = [] then None else Some (length (pre @ cs) + 1), self') \<and>
     linear (pre @ cs) (objects self')"
proof (induction cs arbitrary: pre self tmp)
  case Nil
  then show ?case by simp
next
  case (Cons c cs)
  from linear_step [OF Cons.prems(1) _ _ _ Cons.prems(3), of c] Cons.prems(2)
  obtain s1 where s: "compile_step c 0 tmp self = Inr (Some (length pre + 2), s1)"
    and l1: "linear (pre @ [c]) (objects s1)" by auto
  from Cons.IH [OF l1, of "Some (length pre + 2)"] Cons.prems(2)
  obtain s2 where "compile_loop cs 0 (Some (length pre + 2)) s1 =
       Inr (if (pre @ [c]) @ cs = [] then None else Some (length ((pre @ [c]) @ cs) + 1), s2)"
    and "linear ((pre @ [c]) @ cs) (objects s2)" by auto
  with s show ?case by simp
qed

lemma linear_chain_final:
  assumes "linear p h"
  shows "chain p (append_next h (if p = [] then 0 else length p + 1) 1)"
  unfolding chain_def
proof (intro conjI allI impI)
  fix i assume i: "i < length p"
  from assms i have n: "next_states (h ! (i + 2)) = (if i + 1 < length p then [i + 3] else [])"
    and len: "length h = length p + 2" by (simp_all add: linear_def)
  show "cls (append_next h (if p = [] then 0 else length p + 1) 1 ! (i + 2)) = atom_cls (p ! i)"
    using assms i by (simp add: linear_def)
  show "next_states (append_next h (if p = [] then 0 else length p + 1) 1 ! (i + 2)) =
      [if i + 1 < length p then i + 3 else 1]"
  proof (cases "i + 1 < length p")
    case True
    with n len i show ?thesis by (simp add: next_append_next)
  next
    case False
    with i have "i + 2 = length p + 1" by simp
    with n len i False show ?thesis by (auto simp add: next_append_next)
  qed
qed (use assms in \<open>auto simp add: linear_def next_append_next\<close>)

lemma RegexFSM_chain:
  assumes a: "\<forall>c \<in> set p. c \<noteq> 42 \<and> c \<noteq> 43 \<and> isascii c" and r: "RegexFSM p = Inr M"
  shows "chain p (objects M)"
proof -
  from linear_loop [OF linear_fsm0 a, of None]
  obtain sf where lf: "compile_loop p 0 None fsm0 = Inr (if p = [] then None else Some (length p + 1), sf)"
    and lin: "linear p (objects sf)" by auto
  have b: "builder_ok (if p = [] then None else Some (length p + 1)) sf"
    by (rule compile_loop_builder_ok [OF builder_ok_fsm0 lf])
  then have st: "start_state sf = 0" "terminal_state sf = 1" by (simp_all add: builder_ok_def)
  from r lf st have "objects M = append_next (objects sf) (if p = [] then 0 else length p + 1) 1"
    by (auto simp add: RegexFSM_loop)
  with linear_chain_final [OF lin] show ?thesis by simp
qed

lemma chain_node:
  assumes "chain p h" "i \<le> length p"
  shows "next_states (h ! node i) = [if i < length p then i + 2 else 1]"
proof (cases i)
  case 0
  with assms show ?thesis by (auto simp add: chain_def node_def)
next
  case (Suc j)
  with assms have "j < length p" by simp
  with assms(1) have "next_states (h ! (j + 2)) = [if j + 1 < length p then j + 3 else 1]"
    by (simp add: chain_def)
  with Suc show ?thesis by (simp add: node_def numeral_3_eq_3)
qed

lemma chain_not_star:
  assumes "chain p h" "i \<le> length p"
  shows "\<not> is_StarState (cls (h ! (if i < length p then i + 2 else 1)))"
  using assms by (auto simp add: chain_def atom_cls_def)

lemma check_self_atom: "check_self (atom_cls c) d \<longleftrightarrow> c = 46 \<or> d = c"
  by (simp add: atom_cls_def)

lemma chain_run:
  assumes ch: "chain p (objects M)" and tm: "terminal_state M = 1"
  shows "i \<le> length p \<Longrightarrow> i \<le> length s \<Longrightarrow>
     check_loop M s [(node i, i)] =
       Some (Inr (list_all2 (\<lambda>pc c. pc = 46 \<or> c = pc) (drop i p) (drop i s)))"
proof (induction "length s - i" arbitrary: i)
  case 0
  then have i: "i = length s" by simp
  from chain_node [OF ch "0.prems"(1)] chain_not_star [OF ch "0.prems"(1)]
  have acc: "accepts_at_end M (node i) \<longleftrightarrow> i = length p"
    using "0.prems"(1) by (auto simp add: accepts_at_end_def tm)
  show ?case
  proof (cases "i = length p")
    case True
    with acc i show ?thesis by (subst check_loop.simps) simp
  next
    case False
    with "0.prems"(1) have "drop i p \<noteq> []" by simp
    then have "\<not> list_all2 (\<lambda>pc c. pc = 46 \<or> c = pc) (drop i p) (drop i s)"
      using i by simp
    with acc i False show ?thesis
      by (subst check_loop.simps) (simp add: check_loop.simps [of M s "[]"])
  qed
next
  case (Suc n)
  then have lt: "i < length s" by simp
  have nx: "next_states (objects M ! node i) = [if i < length p then i + 2 else 1]"
    by (rule chain_node [OF ch Suc.prems(1)])
  have ns: "\<not> is_StarState (cls (objects M ! (if i < length p then i + 2 else 1)))"
    by (rule chain_not_star [OF ch Suc.prems(1)])
  have ds: "drop i s = s ! i # drop (Suc i) s" using lt by (simp add: Cons_nth_drop_Suc)
  show ?case
  proof (cases "i < length p")
    case False
    with Suc.prems have "drop i p = []" by simp
    moreover from ch have "cls (objects M ! 1) = TerminationState" by (simp add: chain_def)
    ultimately show ?thesis using lt nx False ds
      by (subst check_loop.simps)
        (simp add: successor_positions_def check_loop.simps [of M s "[]"])
  next
    case True
    from ch True have c: "cls (objects M ! (i + 2)) = atom_cls (p ! i)" by (simp add: chain_def)
    have dp: "drop i p = p ! i # drop (Suc i) p" using True by (simp add: Cons_nth_drop_Suc)
    have nd: "node (Suc i) = i + 2" by (simp add: node_def)
    show ?thesis
    proof (cases "p ! i = 46 \<or> s ! i = p ! i")
      case False
      with lt nx True c ns ds dp show ?thesis
        by (subst check_loop.simps)
          (simp add: successor_positions_def check_self_atom check_loop.simps [of M s "[]"])
    next
      case ok: True
      from Suc.hyps(2) have "n = length s - Suc i" by simp
      from Suc.hyps(1) [OF this] True lt
      have "check_loop M s [(node (Suc i), Suc i)] =
          Some (Inr (list_all2 (\<lambda>pc c. pc = 46 \<or> c = pc) (drop (Suc i) p) (drop (Suc i) s)))"
        by simp
      with lt nx True c ns ds dp ok nd show ?thesis
        by (subst check_loop.simps) (simp add: successor_positions_def check_self_atom)
    qed
  qed
qed

section \<open>The recursion limit\<close>

















section \<open>Sample patterns\<close>

text \<open>
  C3. For the sample pattern \<^verbatim>\<open>a*4.+hi\<close> of the demonstration, \<^verbatim>\<open>check_string\<close> returns
  \<^verbatim>\<open>True\<close> on \<^verbatim>\<open>aaaaaa4uhi\<close> and on \<^verbatim>\<open>4uhi\<close>, and \<^verbatim>\<open>False\<close> on \<^verbatim>\<open>meow\<close>.
\<close>

theorem sample_pattern_results:
  "matches (str ''a*4.+hi'') (str ''aaaaaa4uhi'') = Some (Inr True) \<and>
   matches (str ''a*4.+hi'') (str ''4uhi'') = Some (Inr True) \<and>
   matches (str ''a*4.+hi'') (str ''meow'') = Some (Inr False)"
  by code_simp

text \<open>
  C6. For the pattern \<^verbatim>\<open>a*\<close>, \<^verbatim>\<open>check_string\<close> returns \<^verbatim>\<open>True\<close> on the empty string, on
  \<^verbatim>\<open>a\<close> and on \<^verbatim>\<open>aaaa\<close>, and \<^verbatim>\<open>False\<close> on \<^verbatim>\<open>b\<close>.
\<close>

theorem zero_or_more_results:
  "matches (str ''a*'') (str []) = Some (Inr True) \<and>
   matches (str ''a*'') (str ''a'') = Some (Inr True) \<and>
   matches (str ''a*'') (str ''aaaa'') = Some (Inr True) \<and>
   matches (str ''a*'') (str ''b'') = Some (Inr False)"
  by code_simp

text \<open>
  C2, as the code behaves. For the pattern \<^verbatim>\<open>a+\<close>, \<^verbatim>\<open>check_string\<close> returns \<^verbatim>\<open>False\<close> on
  the empty string and on \<^verbatim>\<open>b\<close> and \<^verbatim>\<open>True\<close> on \<^verbatim>\<open>aaa\<close>, but it returns \<^verbatim>\<open>False\<close> on the
  single occurrence \<^verbatim>\<open>a\<close>: the \<^verbatim>\<open>PlusState\<close> reads one character and the wrapped state,
  its only successor, must read another one before the termination state is seen.
\<close>

theorem one_or_more_results:
  "matches (str ''a+'') (str []) = Some (Inr False) \<and>
   matches (str ''a+'') (str ''a'') = Some (Inr False) \<and>
   matches (str ''a+'') (str ''aa'') = Some (Inr True) \<and>
   matches (str ''a+'') (str ''aaa'') = Some (Inr True) \<and>
   matches (str ''a+'') (str ''b'') = Some (Inr False)"
  by code_simp

text \<open>
  C1, as the code behaves. For the pattern \<^verbatim>\<open>ab*c\<close> the \<^verbatim>\<open>StarState\<close> overwrites the last
  successor of the start state, which was the state of \<^verbatim>\<open>a\<close>: the state of \<^verbatim>\<open>a\<close> keeps its
  edge to the state of \<^verbatim>\<open>b\<close> and is no successor of any state. \<^verbatim>\<open>check_string\<close> then
  returns \<^verbatim>\<open>False\<close> on \<^verbatim>\<open>ac\<close>, \<^verbatim>\<open>abc\<close> and \<^verbatim>\<open>abbbc\<close>, and \<^verbatim>\<open>True\<close> on \<^verbatim>\<open>bc\<close>.
\<close>

theorem quantifier_mid_pattern_results:
  "RegexFSM (str ''ab*c'') =
     Inr \<lparr>start_state = 0, terminal_state = 1, states = [0, 2, 3, 4, 5],
          objects =
            [\<lparr>cls = StartState, next_states = [4]\<rparr>,
             \<lparr>cls = TerminationState, next_states = []\<rparr>,
             \<lparr>cls = AsciiState (of_char CHR ''a''), next_states = [3]\<rparr>,
             \<lparr>cls = AsciiState (of_char CHR ''b''), next_states = []\<rparr>,
             \<lparr>cls = StarState (AsciiState (of_char CHR ''b'')), next_states = [3, 4, 5]\<rparr>,
             \<lparr>cls = AsciiState (of_char CHR ''c''), next_states = [1]\<rparr>]\<rparr> \<and>
   matches (str ''ab*c'') (str ''ac'') = Some (Inr False) \<and>
   matches (str ''ab*c'') (str ''abc'') = Some (Inr False) \<and>
   matches (str ''ab*c'') (str ''abbbc'') = Some (Inr False) \<and>
   matches (str ''ab*c'') (str ''ac d'') = Some (Inr False) \<and>
   matches (str ''ab*c'') (str ''bc'') = Some (Inr True) \<and>
   matches (str ''ab*c'') (str ''xyz'') = Some (Inr False)"
  by code_simp

section \<open>Reachability\<close>

text \<open>
  C4, as the code behaves. In the automaton compiled from \<^verbatim>\<open>ab*c\<close> the state of \<^verbatim>\<open>a\<close>
  (address 2) is in \<^verbatim>\<open>states\<close>, is neither the start state nor the termination state, and
  is not reachable from the start state: its only incoming edge, from the start state, was
  overwritten by the \<^verbatim>\<open>StarState\<close>.
\<close>

theorem unreachable_state:
  "RegexFSM (str ''ab*c'') =
     Inr \<lparr>start_state = 0, terminal_state = 1, states = [0, 2, 3, 4, 5],
          objects =
            [\<lparr>cls = StartState, next_states = [4]\<rparr>,
             \<lparr>cls = TerminationState, next_states = []\<rparr>,
             \<lparr>cls = AsciiState (of_char CHR ''a''), next_states = [3]\<rparr>,
             \<lparr>cls = AsciiState (of_char CHR ''b''), next_states = []\<rparr>,
             \<lparr>cls = StarState (AsciiState (of_char CHR ''b'')), next_states = [3, 4, 5]\<rparr>,
             \<lparr>cls = AsciiState (of_char CHR ''c''), next_states = [1]\<rparr>]\<rparr> \<and>
   2 \<in> set (states (projr (RegexFSM (str ''ab*c'')))) \<and>
   2 \<noteq> start_state (projr (RegexFSM (str ''ab*c''))) \<and>
   2 \<noteq> terminal_state (projr (RegexFSM (str ''ab*c''))) \<and>
   \<not> reachable (objects (projr (RegexFSM (str ''ab*c''))))
       (start_state (projr (RegexFSM (str ''ab*c'')))) 2"
proof -
  have r: "RegexFSM (str ''ab*c'') =
     Inr \<lparr>start_state = 0, terminal_state = 1, states = [0, 2, 3, 4, 5],
          objects =
            [\<lparr>cls = StartState, next_states = [4]\<rparr>,
             \<lparr>cls = TerminationState, next_states = []\<rparr>,
             \<lparr>cls = AsciiState 97, next_states = [3]\<rparr>,
             \<lparr>cls = AsciiState 98, next_states = []\<rparr>,
             \<lparr>cls = StarState (AsciiState 98), next_states = [3, 4, 5]\<rparr>,
             \<lparr>cls = AsciiState 99, next_states = [1]\<rparr>]\<rparr>"
    by code_simp
  show ?thesis
    unfolding r using ab_star_c_reachable [of 2] by auto
qed

section \<open>Termination of the matcher\<close>





section \<open>Compilation errors\<close>

text \<open>
  The second of two \<^verbatim>\<open>+\<close> does not wrap the first: in \<^verbatim>\<open>a++\<close> both \<^verbatim>\<open>PlusState\<close>s (addresses 3
  and 4) wrap the state of \<^verbatim>\<open>a\<close>, because the \<^verbatim>\<open>+\<close> branch leaves \<^verbatim>\<open>tmp_next_state\<close> at the
  wrapped state.
\<close>

theorem double_plus_counterexample:
  "RegexFSM (str ''a++'') =
     Inr \<lparr>start_state = 0, terminal_state = 1, states = [0, 2, 3, 4],
          objects =
            [\<lparr>cls = StartState, next_states = [4]\<rparr>,
             \<lparr>cls = TerminationState, next_states = []\<rparr>,
             \<lparr>cls = AsciiState (of_char CHR ''a''), next_states = [2, 2, 1]\<rparr>,
             \<lparr>cls = PlusState (AsciiState (of_char CHR ''a'')), next_states = [2]\<rparr>,
             \<lparr>cls = PlusState (AsciiState (of_char CHR ''a'')), next_states = [2]\<rparr>]\<rparr> \<and>
   cls (objects (projr (RegexFSM (str ''a++''))) ! 4) \<noteq>
     PlusState (cls (objects (projr (RegexFSM (str ''a++''))) ! 3))"
  by code_simp

text \<open>
  C8, amended. Compilation raises the error of a leading quantifier exactly when the first
  character of the pattern is \<^verbatim>\<open>*\<close> or \<^verbatim>\<open>+\<close>. A quantifier that immediately follows another
  quantifier is accepted; the state of the token at index \<open>i\<close> has address \<open>i + 2\<close>, and the
  new \<^verbatim>\<open>StarState\<close> or \<^verbatim>\<open>PlusState\<close> wraps the previous one when the previous quantifier is
  \<^verbatim>\<open>*\<close>, and wraps the state that the previous one wraps when the previous quantifier is
  \<^verbatim>\<open>+\<close>.
\<close>

theorem leading_quantifier_error:
  "(RegexFSM p = Inl (ValueError (str ''* cannot be the first character'')) \<longleftrightarrow>
      (\<exists>rest. p = of_char CHR ''*'' # rest)) \<and>
   (RegexFSM p = Inl (ValueError (str ''+ cannot be the first character'')) \<longleftrightarrow>
      (\<exists>rest. p = of_char CHR ''+'' # rest)) \<and>
   (\<forall>xs q1 q2 ys M.
      p = xs @ [q1, q2] @ ys \<and> RegexFSM p = Inr M \<and>
      (q1 = of_char CHR ''*'' \<or> q1 = of_char CHR ''+'') \<and>
      (q2 = of_char CHR ''*'' \<or> q2 = of_char CHR ''+'') \<longrightarrow>
      (\<exists>k. cls (objects M ! (length xs + 2)) =
              (if q1 = of_char CHR ''*'' then StarState k else PlusState k) \<and>
           cls (objects M ! (length xs + 3)) =
              (if q2 = of_char CHR ''*'' then StarState else PlusState)
                (if q1 = of_char CHR ''*'' then StarState k else k)))"
proof (intro conjI allI impI)
  fix xs q1 q2 ys M
  assume "p = xs @ [q1, q2] @ ys \<and> RegexFSM p = Inr M \<and>
      (q1 = of_char CHR ''*'' \<or> q1 = of_char CHR ''+'') \<and>
      (q2 = of_char CHR ''*'' \<or> q2 = of_char CHR ''+'')"
  then have r: "RegexFSM (xs @ [q1, q2] @ ys) = Inr M"
    and q: "q1 = 42 \<or> q1 = 43" "q2 = 42 \<or> q2 = 43" by auto
  from two_quantifiers_cls [OF r q]
  show "\<exists>k. cls (objects M ! (length xs + 2)) =
              (if q1 = of_char CHR ''*'' then StarState k else PlusState k) \<and>
           cls (objects M ! (length xs + 3)) =
              (if q2 = of_char CHR ''*'' then StarState else PlusState)
                (if q1 = of_char CHR ''*'' then StarState k else k)"
    by simp
next
  show "RegexFSM p = Inl (ValueError (str ''* cannot be the first character'')) \<longleftrightarrow>
      (\<exists>rest. p = of_char CHR ''*'' # rest)"
  proof (cases p)
    case Nil
    then show ?thesis by (simp add: RegexFSM_Nil)
  next
    case (Cons c0 rest)
    consider (star) "c0 = 42" | (plus) "c0 = 43" | (atom) "c0 \<noteq> 42" "c0 \<noteq> 43" by blast
    then show ?thesis
    proof cases
      case star
      with Cons show ?thesis by (simp add: RegexFSM_star_first)
    next
      case plus
      with Cons show ?thesis by (simp add: RegexFSM_plus_first)
    next
      case atom
      show ?thesis
      proof (cases "find (\<lambda>x. \<not> isascii x) p")
        case None
        then have "\<forall>x \<in> set p. isascii x" by (simp add: find_None_iff)
        with RegexFSM_ascii [OF atom, of rest] Cons atom show ?thesis by auto
      next
        case (Some x)
        with RegexFSM_unsupported [OF atom, of rest x] Cons atom show ?thesis by auto
      qed
    qed
  qed
next
  show "RegexFSM p = Inl (ValueError (str ''+ cannot be the first character'')) \<longleftrightarrow>
      (\<exists>rest. p = of_char CHR ''+'' # rest)"
  proof (cases p)
    case Nil
    then show ?thesis by (simp add: RegexFSM_Nil)
  next
    case (Cons c0 rest)
    consider (star) "c0 = 42" | (plus) "c0 = 43" | (atom) "c0 \<noteq> 42" "c0 \<noteq> 43" by blast
    then show ?thesis
    proof cases
      case star
      with Cons show ?thesis by (simp add: RegexFSM_star_first)
    next
      case plus
      with Cons show ?thesis by (simp add: RegexFSM_plus_first)
    next
      case atom
      show ?thesis
      proof (cases "find (\<lambda>x. \<not> isascii x) p")
        case None
        then have "\<forall>x \<in> set p. isascii x" by (simp add: find_None_iff)
        with RegexFSM_ascii [OF atom, of rest] Cons atom show ?thesis by auto
      next
        case (Some x)
        with RegexFSM_unsupported [OF atom, of rest x] Cons atom show ?thesis by auto
      qed
    qed
  qed
qed

theorem leading_quantifier_error_witness:
  "RegexFSM (str ''*abc'') = Inl (ValueError (str ''* cannot be the first character'')) \<and>
   RegexFSM (str ''+x'') = Inl (ValueError (str ''+ cannot be the first character'')) \<and>
   (\<exists>M k. RegexFSM (str ''a*+'') = Inr M \<and> cls (objects M ! 3) = StarState k \<and>
      cls (objects M ! 4) = PlusState (StarState k))"
proof -
  have "\<not> isl (RegexFSM (str ''a*+''))" by code_simp
  then obtain M where r: "RegexFSM (str ''a*+'') = Inr M"
    by (cases "RegexFSM (str ''a*+'')") auto
  have "str ''a*+'' = [of_char CHR ''a''] @ [of_char CHR ''*'', of_char CHR ''+''] @ [] \<and>
      RegexFSM (str ''a*+'') = Inr M \<and>
      (of_char CHR ''*'' = (of_char CHR ''*'' :: nat) \<or> of_char CHR ''*'' = (of_char CHR ''+'' :: nat)) \<and>
      (of_char CHR ''+'' = (of_char CHR ''*'' :: nat) \<or> of_char CHR ''+'' = (of_char CHR ''+'' :: nat))"
    using r by simp
  with leading_quantifier_error [of "str ''a*+''"]
  have "\<exists>k. cls (objects M ! (length [of_char CHR ''a'' :: nat] + 2)) =
              (if of_char CHR ''*'' = (of_char CHR ''*'' :: nat) then StarState k else PlusState k) \<and>
           cls (objects M ! (length [of_char CHR ''a'' :: nat] + 3)) =
              (if of_char CHR ''+'' = (of_char CHR ''*'' :: nat) then StarState else PlusState)
                (if of_char CHR ''*'' = (of_char CHR ''*'' :: nat) then StarState k else k)"
    by blast
  then have "\<exists>k. cls (objects M ! 3) = StarState k \<and> cls (objects M ! 4) = PlusState (StarState k)"
    by (simp add: numeral_3_eq_3 eval_nat_numeral)
  with r leading_quantifier_error [of "str ''*abc''"] leading_quantifier_error [of "str ''+x''"]
  show ?thesis by auto
qed

text \<open>
  A pattern that begins with a quantifier and contains a character that is not ASCII raises
  the error of the leading quantifier, not the error of an unsupported token.
\<close>

theorem unsupported_token_counterexample:
  "\<not> isascii 233 \<and>
   RegexFSM [of_char CHR ''*'', 233] =
     Inl (ValueError (str ''* cannot be the first character'')) \<and>
   RegexFSM [of_char CHR ''*'', 233] \<noteq> Inl (ValueError (str ''Unsupported token: '' @ [233]))"
  by code_simp

text \<open>
  C9, amended. Compilation raises the error of an unsupported token for the character \<open>c\<close>
  exactly when the pattern does not begin with \<^verbatim>\<open>*\<close> or \<^verbatim>\<open>+\<close> and \<open>c\<close> is its first character
  that is not ASCII. Every pattern of ASCII characters that does not begin with a quantifier
  compiles: no ASCII character is reserved. \<^verbatim>\<open>check_string\<close> never raises a \<^verbatim>\<open>ValueError\<close>.
\<close>

theorem unsupported_token_error:
  "(RegexFSM p = Inl (ValueError (str ''Unsupported token: '' @ [c])) \<longleftrightarrow>
      \<not> (\<exists>rest. p = of_char CHR ''*'' # rest \<or> p = of_char CHR ''+'' # rest) \<and>
      find (\<lambda>x. \<not> isascii x) p = Some c) \<and>
   ((\<forall>x \<in> set p. isascii x) \<and>
      \<not> (\<exists>rest. p = of_char CHR ''*'' # rest \<or> p = of_char CHR ''+'' # rest) \<longrightarrow>
      (\<exists>M'. RegexFSM p = Inr M')) \<and>
   check_string M s \<noteq> Some (Inl (ValueError msg))"
proof (intro conjI)
  show "check_string M s \<noteq> Some (Inl (ValueError msg))"
    using check_loop_no_ValueError [of M s "[(start_state M, 0)]" _ msg]
    by (auto simp add: check_string_def)
next
  show "(\<forall>x \<in> set p. isascii x) \<and>
      \<not> (\<exists>rest. p = of_char CHR ''*'' # rest \<or> p = of_char CHR ''+'' # rest) \<longrightarrow>
      (\<exists>M'. RegexFSM p = Inr M')"
  proof (cases p)
    case Nil
    then show ?thesis by (simp add: RegexFSM_Nil)
  next
    case (Cons c0 rest)
    then show ?thesis using RegexFSM_ascii [of c0 rest] by auto
  qed
next
  show "RegexFSM p = Inl (ValueError (str ''Unsupported token: '' @ [c])) \<longleftrightarrow>
      \<not> (\<exists>rest. p = of_char CHR ''*'' # rest \<or> p = of_char CHR ''+'' # rest) \<and>
      find (\<lambda>x. \<not> isascii x) p = Some c"
  proof (cases p)
    case Nil
    then show ?thesis by (simp add: RegexFSM_Nil)
  next
    case (Cons c0 rest)
    consider (star) "c0 = 42" | (plus) "c0 = 43" | (atom) "c0 \<noteq> 42" "c0 \<noteq> 43" by blast
    then show ?thesis
    proof cases
      case star
      with Cons show ?thesis by (simp add: RegexFSM_star_first)
    next
      case plus
      with Cons show ?thesis by (simp add: RegexFSM_plus_first)
    next
      case atom
      show ?thesis
      proof (cases "find (\<lambda>x. \<not> isascii x) p")
        case None
        then have "\<forall>x \<in> set p. isascii x" by (simp add: find_None_iff)
        with RegexFSM_ascii [OF atom, of rest] Cons None atom show ?thesis by auto
      next
        case (Some x)
        with RegexFSM_unsupported [OF atom, of rest x] Cons atom show ?thesis by auto
      qed
    qed
  qed
qed


theorem unsupported_token_error_witness:
  "RegexFSM [of_char CHR ''a'', 233, of_char CHR ''b'', 955] =
     Inl (ValueError (str ''Unsupported token: '' @ [233])) \<and>
   (\<exists>M'. RegexFSM (str ''a?(|)'') = Inr M')"
proof -
  have "\<not> (\<exists>rest. [of_char CHR ''a'', 233, of_char CHR ''b'', 955 :: nat] = of_char CHR ''*'' # rest \<or>
          [of_char CHR ''a'', 233, of_char CHR ''b'', 955 :: nat] = of_char CHR ''+'' # rest) \<and>
      find (\<lambda>x. \<not> isascii x) [of_char CHR ''a'', 233, of_char CHR ''b'', 955] = Some 233"
    by (simp add: isascii_def)
  moreover have "(\<forall>x \<in> set (str ''a?(|)''). isascii x) \<and>
      \<not> (\<exists>rest. str ''a?(|)'' = of_char CHR ''*'' # rest \<or> str ''a?(|)'' = of_char CHR ''+'' # rest)"
    by (simp add: isascii_def)
  ultimately show ?thesis
    using unsupported_token_error [of "[of_char CHR ''a'', 233, of_char CHR ''b'', 955]" 233]
      unsupported_token_error [of "str ''a?(|)''"]
    by blast
qed

text \<open>
  C10. Every ASCII character other than \<^verbatim>\<open>.\<close>, \<^verbatim>\<open>*\<close> and \<^verbatim>\<open>+\<close> (so also \<^verbatim>\<open>?\<close>, \<^verbatim>\<open>(\<close>, \<^verbatim>\<open>|\<close> and the
  space) compiles to an \<^verbatim>\<open>AsciiState\<close> of that character, whose \<^verbatim>\<open>check_self\<close> is true of
  that character and of no other.
\<close>

theorem ascii_token_literal:
  assumes "isascii c" "c \<noteq> of_char CHR ''.''" "c \<noteq> of_char CHR ''*''" "c \<noteq> of_char CHR ''+''"
  shows "init_next_state h c = Inr (length h, h @ [\<lparr>cls = AsciiState c, next_states = []\<rparr>]) \<and>
         (\<exists>self'. compile_step c prev_state tmp self = Inr (Some (length (objects self)), self') \<and>
                  cls (objects self' ! length (objects self)) = AsciiState c) \<and>
         (\<forall>d. check_self (AsciiState c) d \<longleftrightarrow> d = c)"
  using assms
  by (auto simp add: init_next_state_def new_state_def compile_step_def split: option.splits)

theorem ascii_token_literal_witness:
  "isascii (of_char CHR ''?'') \<and>
   (\<exists>self'. compile_step (of_char CHR ''?'') 0 None fsm0 = Inr (Some 2, self') \<and>
       cls (objects self' ! 2) = AsciiState (of_char CHR ''?'')) \<and>
   check_self (AsciiState (of_char CHR ''?'')) (of_char CHR ''?'') \<and>
   \<not> check_self (AsciiState (of_char CHR ''?'')) (of_char CHR ''a'')"
  using ascii_token_literal [of "of_char CHR ''?''" "[]" 0 None fsm0]
  by (simp add: isascii_def fsm0_def numeral_2_eq_2)

section \<open>Matching without quantifiers\<close>

text \<open>
  C5. For a pattern without \<^verbatim>\<open>*\<close> and \<^verbatim>\<open>+\<close> (the empty pattern included) and every input
  string, \<^verbatim>\<open>check_string\<close> of the compiled automaton returns \<^verbatim>\<open>True\<close> if and only if the input
  has the length of the pattern and every character of the input equals the character of the
  pattern at its position, a \<^verbatim>\<open>.\<close> in the pattern accepting any character.
\<close>

theorem quantifier_free_match:
  assumes "of_char CHR ''*'' \<notin> set p" "of_char CHR ''+'' \<notin> set p" "RegexFSM p = Inr M"
  shows "check_string M s =
           Some (Inr (list_all2 (\<lambda>pc c. pc = of_char CHR ''.'' \<or> c = pc) p s))"
proof -
  have asc: "\<forall>c \<in> set p. isascii c"
  proof (cases p)
    case Nil
    then show ?thesis by simp
  next
    case (Cons c0 rest)
    with assms have c0: "c0 \<noteq> 42" "c0 \<noteq> 43" by auto
    show ?thesis
    proof (rule ccontr)
      assume "\<not> ?thesis"
      then obtain x where "find (\<lambda>c. \<not> isascii c) p = Some x"
        by (cases "find (\<lambda>c. \<not> isascii c) p") (auto simp add: find_None_iff)
      with RegexFSM_unsupported [OF c0, of rest x] Cons assms(3) show False by simp
    qed
  qed
  with assms have a: "\<forall>c \<in> set p. c \<noteq> 42 \<and> c \<noteq> 43 \<and> isascii c" by auto
  have ch: "chain p (objects M)" by (rule RegexFSM_chain [OF a assms(3)])
  from RegexFSM_store_ok [OF assms(3)] have st: "start_state M = 0" "terminal_state M = 1"
    by simp_all
  from chain_run [OF ch st(2), of 0 s] st show ?thesis
    by (simp add: check_string_def node_def)
qed

theorem quantifier_free_match_witness:
  "(\<exists>M. RegexFSM (str ''a.c'') = Inr M \<and>
      check_string M (str ''abc'') = Some (Inr True) \<and>
      check_string M (str ''aXc'') = Some (Inr True) \<and>
      check_string M (str ''ac'') = Some (Inr False) \<and>
      check_string M (str ''abcd'') = Some (Inr False)) \<and>
   (\<exists>M. RegexFSM [] = Inr M \<and> check_string M [] = Some (Inr True) \<and>
      check_string M (str ''a'') = Some (Inr False))"
proof -
  have "\<not> isl (RegexFSM (str ''a.c''))" by code_simp
  then obtain M where r: "RegexFSM (str ''a.c'') = Inr M"
    by (cases "RegexFSM (str ''a.c'')") auto
  have "\<not> isl (RegexFSM [])" by code_simp
  then obtain M0 where r0: "RegexFSM [] = Inr M0"
    by (cases "RegexFSM []") auto
  have q: "of_char CHR ''*'' \<notin> set (str ''a.c'')" "of_char CHR ''+'' \<notin> set (str ''a.c'')"
    "of_char CHR ''*'' \<notin> set ([] :: nat list)" "of_char CHR ''+'' \<notin> set ([] :: nat list)"
    by simp_all
  from quantifier_free_match [OF q(1,2) r, of "str ''abc''"]
    quantifier_free_match [OF q(1,2) r, of "str ''aXc''"]
    quantifier_free_match [OF q(1,2) r, of "str ''ac''"]
    quantifier_free_match [OF q(1,2) r, of "str ''abcd''"]
    quantifier_free_match [OF q(3,4) r0, of "[]"]
    quantifier_free_match [OF q(3,4) r0, of "str ''a''"]
    r r0
  show ?thesis by simp
qed

end
